theory Spec2Isabelle
  imports Main "HOL-Library.Multiset" "HOL-Library.Word"
begin

section \<open>The binary heap of heap/heap.go\<close>

text \<open>
  Go's \<open>errors.New(msg)\<close>: an error value is identified by its message. The zero value
  that the Go code returns beside a non-nil error carries no information and is dropped:
  a fallible call returns \<open>Inl\<close> of the error or \<open>Inr\<close> of the value.
\<close>

datatype error = errors_New string

text \<open>
  \<open>type Heap[T any] struct { elements []T; compare func(a T, b T) int }\<close>.
  The comparator's Go \<open>int\<close> result is read as the signed integer it denotes; the heap
  only ever tests its sign. Indices and sizes are natural numbers (a slice index is never
  negative, and every index the code reads is guarded by the loop conditions).
\<close>

record 'a Heap =
  elements :: "'a list"
  compare :: "'a \<Rightarrow> 'a \<Rightarrow> int"

definition NewGenericHeap :: "('a \<Rightarrow> 'a \<Rightarrow> int) \<Rightarrow> 'a Heap" where
  "NewGenericHeap cmp = \<lparr>elements = [], compare = cmp\<rparr>"

definition NewMinHeap :: "('a \<Rightarrow> 'a \<Rightarrow> int) \<Rightarrow> 'a Heap" where
  "NewMinHeap cmp = \<lparr>elements = [], compare = cmp\<rparr>"

definition NewMaxHeap :: "('a \<Rightarrow> 'a \<Rightarrow> int) \<Rightarrow> 'a Heap" where
  "NewMaxHeap cmp = (let comp = (\<lambda>a b. cmp b a) in \<lparr>elements = [], compare = comp\<rparr>)"

definition Size :: "'a Heap \<Rightarrow> nat" where
  "Size h = length (elements h)"

text \<open>
  \<open>upHeap(i)\<close>: the loop \<open>for i > 0\<close> breaks when the element compares strictly greater
  than its parent and swaps otherwise. It is only called by \<open>Insert\<close>, with the index of
  the last element.
\<close>

function upHeap :: "'a Heap \<Rightarrow> nat \<Rightarrow> 'a Heap" where
  "upHeap h i =
     (if i > 0 then
        (let parent = (i - 1) div 2 in
         if compare h (elements h ! i) (elements h ! parent) > 0 then h
         else upHeap
                (h\<lparr>elements := (elements h)[i := elements h ! parent, parent := elements h ! i]\<rparr>)
                parent)
      else h)"
  by pat_completeness auto
termination
  by (relation "measure (\<lambda>(h, i). i)") auto

text \<open>
  \<open>downHeap(i)\<close>: \<open>smallest\<close> starts as \<open>i\<close>, becomes \<open>left\<close> when the left child
  exists and compares strictly less than the element at \<open>smallest\<close>, then \<open>right\<close> when
  the right child exists and compares strictly less than the element at the current
  \<open>smallest\<close>; the loop breaks when \<open>smallest\<close> is still \<open>i\<close>.
\<close>

function downHeap :: "'a Heap \<Rightarrow> nat \<Rightarrow> 'a Heap" where
  "downHeap h i =
     (let left = 2 * i + 1;
          right = 2 * i + 2;
          smallest = i;
          smallest = (if left < Size h \<and>
                         compare h (elements h ! left) (elements h ! smallest) < 0
                      then left else smallest);
          smallest = (if right < Size h \<and>
                         compare h (elements h ! right) (elements h ! smallest) < 0
                      then right else smallest)
      in if smallest = i then h
         else downHeap
                (h\<lparr>elements := (elements h)[i := elements h ! smallest, smallest := elements h ! i]\<rparr>)
                smallest)"
  by pat_completeness auto
termination
  by (relation "measure (\<lambda>(h, i). Size h - i)") (auto simp: Size_def split: if_splits)

declare upHeap.simps [simp del] downHeap.simps [simp del]

definition Insert :: "'a Heap \<Rightarrow> 'a \<Rightarrow> 'a Heap" where
  "Insert h element =
     (let h1 = h\<lparr>elements := elements h @ [element]\<rparr>
      in upHeap h1 (length (elements h1) - 1))"

text \<open>\<open>Remove\<close> returns the result together with the heap it leaves behind.\<close>

definition Remove :: "'a Heap \<Rightarrow> (error + 'a) \<times> 'a Heap" where
  "Remove h =
     (if Size h = 0 then (Inl (errors_New ''empty heap''), h)
      else
        (let element = elements h ! 0;
             h1 = h\<lparr>elements := (elements h)[0 := elements h ! (Size h - 1)]\<rparr>;
             h2 = h1\<lparr>elements := take (Size h1 - 1) (elements h1)\<rparr>
         in (Inr element, downHeap h2 0)))"

definition Elements :: "'a Heap \<Rightarrow> 'a list" where
  "Elements h = elements h"

text \<open>\<open>Peek\<close> has a pointer receiver like \<open>Remove\<close>; it hands the heap back untouched.\<close>

definition Peek :: "'a Heap \<Rightarrow> (error + 'a) \<times> 'a Heap" where
  "Peek h =
     (if Size h = 0 then (Inl (errors_New ''empty heap''), h)
      else (Inr (elements h ! 0), h))"

definition Comparator :: "'a Heap \<Rightarrow> ('a \<Rightarrow> 'a \<Rightarrow> int)" where
  "Comparator h = compare h"

section \<open>The priority queue of priority_queue/priority_queue.go\<close>

text \<open>
  Go's \<open>int\<close> is a machine integer of the platform's width \<open>w\<close> (32 or 64 bits): a
  priority is a \<open>w\<close>-bit word, subtraction wraps around, and the comparator's result is
  the signed reading of the difference. The width is the type parameter \<open>'w\<close>; the test
  files are read at 64 bits (\<open>go_int\<close>).
\<close>

type_synonym go_int = "64 word"

record (overloaded) ('a, 'w) prioritized =
  val :: 'a
  priority :: "'w word"

record (overloaded) ('a, 'w) PriorityQueue =
  heap :: "('a, 'w) prioritized Heap"

definition NewMinPriorityQueue :: "('a, 'w::len) PriorityQueue" where
  "NewMinPriorityQueue =
     (let compare = (\<lambda>a b. sint (priority a - priority b))
      in \<lparr>heap = NewGenericHeap compare\<rparr>)"

definition NewMaxPriorityQueue :: "('a, 'w::len) PriorityQueue" where
  "NewMaxPriorityQueue =
     (let compare = (\<lambda>a b. sint (priority b - priority a))
      in \<lparr>heap = NewGenericHeap compare\<rparr>)"

definition Enqueue :: "('a, 'w::len) PriorityQueue \<Rightarrow> 'a \<Rightarrow> 'w word \<Rightarrow> ('a, 'w) PriorityQueue" where
  "Enqueue pq v p = pq\<lparr>heap := Insert (heap pq) \<lparr>val = v, priority = p\<rparr>\<rparr>"

definition Dequeue :: "('a, 'w::len) PriorityQueue \<Rightarrow> (error + 'a) \<times> ('a, 'w) PriorityQueue" where
  "Dequeue pq =
     (case Remove (heap pq) of
        (Inl err, h') \<Rightarrow> (Inl err, pq\<lparr>heap := h'\<rparr>)
      | (Inr item, h') \<Rightarrow> (Inr (val item), pq\<lparr>heap := h'\<rparr>))"

definition pq_Peek :: "('a, 'w::len) PriorityQueue \<Rightarrow> (error + 'a) \<times> ('a, 'w) PriorityQueue" where
  "pq_Peek pq =
     (case Peek (heap pq) of
        (Inl err, h') \<Rightarrow> (Inl err, pq\<lparr>heap := h'\<rparr>)
      | (Inr item, h') \<Rightarrow> (Inr (val item), pq\<lparr>heap := h'\<rparr>))"

definition pq_Size :: "('a, 'w::len) PriorityQueue \<Rightarrow> nat" where
  "pq_Size pq = Size (heap pq)"

definition IsEmpty :: "('a, 'w::len) PriorityQueue \<Rightarrow> bool" where
  "IsEmpty pq = (pq_Size pq = 0)"

definition Clear :: "('a, 'w::len) PriorityQueue \<Rightarrow> ('a, 'w) PriorityQueue" where
  "Clear pq = pq\<lparr>heap := NewGenericHeap (Comparator (heap pq))\<rparr>"

section \<open>The comparators, data and loops of the test files\<close>

text \<open>\<open>intComparator\<close> of heap/heap\_test.go, on Go's signed integers.\<close>

definition intComparator :: "go_int \<Rightarrow> go_int \<Rightarrow> int" where
  "intComparator a b = (if a <s b then -1 else if b <s a then 1 else 0)"

text \<open>\<open>Person\<close> and \<open>peopleFromOldestToYoungest\<close> of heap/heap\_test.go.\<close>

record Person =
  name :: string
  age :: go_int

definition peopleFromOldestToYoungest :: "Person \<Rightarrow> Person \<Rightarrow> int" where
  "peopleFromOldestToYoungest a b =
     (if age a <s age b then 1 else if age b <s age a then -1 else 0)"

definition Ana :: Person where "Ana = \<lparr>name = ''Ana'', age = 29\<rparr>"

definition Juan :: Person where "Juan = \<lparr>name = ''Juan'', age = 29\<rparr>"

definition Maria :: Person where "Maria = \<lparr>name = ''Maria'', age = 2\<rparr>"

definition same_age_heap :: "Person Heap" where
  "same_age_heap = \<lparr>elements = [Ana, Juan], compare = peopleFromOldestToYoungest\<rparr>"

definition young_root_heap :: "Person Heap" where
  "young_root_heap = \<lparr>elements = [Maria, Ana, Juan], compare = peopleFromOldestToYoungest\<rparr>"

text \<open>
  The test loop \<open>for i := range insertionSequence { m.Insert(...); m.Elements() }\<close>:
  the array layout read after each insertion.
\<close>

fun insert_layouts :: "'a Heap \<Rightarrow> 'a list \<Rightarrow> 'a list list" where
  "insert_layouts h [] = []"
| "insert_layouts h (x # xs) = (let h' = Insert h x in Elements h' # insert_layouts h' xs)"

text \<open>Inserting the elements of a list one after the other, first element first.\<close>

fun insert_all :: "'a Heap \<Rightarrow> 'a list \<Rightarrow> 'a Heap" where
  "insert_all h [] = h"
| "insert_all h (x # xs) = insert_all (Insert h x) xs"

text \<open>
  The loop of the sorted-extraction property: call \<open>Remove\<close> until the heap is empty
  and collect what it returns. It terminates because every successful \<open>Remove\<close> makes
  the heap one element shorter.
\<close>

function drain :: "'a Heap \<Rightarrow> 'a list" where
  "drain h =
     (if Size h = 0 then []
      else (case Remove h of
              (Inl err, h') \<Rightarrow> []
            | (Inr element, h') \<Rightarrow> element # drain h'))"
  by pat_completeness auto
termination
proof -
  have sz: "Size (downHeap h i) = Size h" for h :: "'a Heap" and i
    by (induction h i rule: downHeap.induct)
      (subst downHeap.simps, simp add: Let_def Size_def)
  have "Size h' < Size h" if "(r, h') = Remove h" and "Size h \<noteq> 0"
    for r and h h' :: "'a Heap"
    using that sz [of "h\<lparr>elements := take (Size h - 1) ((elements h)[0 := elements h ! (Size h - 1)])\<rparr>" 0]
    by (simp add: Remove_def Let_def Size_def)
  then show ?thesis
    by (relation "measure Size") auto
qed

declare drain.simps [simp del]

text \<open>
  A caller's view of the heap: a sequence of \<open>Insert\<close> and \<open>Remove\<close> calls run from a
  given heap (a \<open>Remove\<close> on the empty heap fails and leaves it as it is), and the heap
  as it stands after each call returns.
\<close>

datatype 'a heap_op = CallInsert 'a | CallRemove

fun heap_call :: "'a Heap \<Rightarrow> 'a heap_op \<Rightarrow> 'a Heap" where
  "heap_call h (CallInsert x) = Insert h x"
| "heap_call h CallRemove = snd (Remove h)"

fun heap_states :: "'a Heap \<Rightarrow> 'a heap_op list \<Rightarrow> 'a Heap list" where
  "heap_states h [] = []"
| "heap_states h (c # cs) = (let h' = heap_call h c in h' # heap_states h' cs)"

text \<open>
  A caller's view of the queue: the public methods as calls, what each returns, and a
  sequence of calls run from a given queue.
\<close>

datatype ('a, 'p) pq_op = CallEnqueue 'a 'p | CallDequeue | CallPeek | CallIsEmpty | CallSize | CallClear

datatype 'a pq_result = NoResult | Returned "error + 'a" | ReturnedBool bool | ReturnedInt nat

fun pq_call :: "('a, 'w::len) PriorityQueue \<Rightarrow> ('a, 'w word) pq_op \<Rightarrow> 'a pq_result \<times> ('a, 'w) PriorityQueue" where
  "pq_call pq (CallEnqueue v p) = (NoResult, Enqueue pq v p)"
| "pq_call pq CallDequeue = (case Dequeue pq of (r, pq') \<Rightarrow> (Returned r, pq'))"
| "pq_call pq CallPeek = (case pq_Peek pq of (r, pq') \<Rightarrow> (Returned r, pq'))"
| "pq_call pq CallIsEmpty = (ReturnedBool (IsEmpty pq), pq)"
| "pq_call pq CallSize = (ReturnedInt (pq_Size pq), pq)"
| "pq_call pq CallClear = (NoResult, Clear pq)"

fun pq_calls :: "('a, 'w::len) PriorityQueue \<Rightarrow> ('a, 'w word) pq_op list \<Rightarrow> 'a pq_result list \<times> ('a, 'w) PriorityQueue" where
  "pq_calls pq [] = ([], pq)"
| "pq_calls pq (c # cs) =
     (case pq_call pq c of (r, pq') \<Rightarrow>
        (case pq_calls pq' cs of (rs, pq'') \<Rightarrow> (r # rs, pq'')))"

section \<open>The properties of the specification\<close>

text \<open>
  A comparator is a total order for the heap when its sign is one: \<open>a\<close> is below \<open>b\<close>
  exactly when \<open>b\<close> is above \<open>a\<close>, and "not above" (\<open>\<le> 0\<close>) is transitive. Distinct
  elements may compare equal, as two persons of the same age do.
\<close>

definition total_order_cmp :: "('a \<Rightarrow> 'a \<Rightarrow> int) \<Rightarrow> bool" where
  "total_order_cmp cmp \<longleftrightarrow>
     (\<forall>a b. (cmp a b < 0) = (cmp b a > 0)) \<and>
     (\<forall>a b c. cmp a b \<le> 0 \<longrightarrow> cmp b c \<le> 0 \<longrightarrow> cmp a c \<le> 0)"

text \<open>
  The heap property: every index \<open>i\<close> compares \<open>\<le> 0\<close> against each of its children
  \<open>2i+1\<close> and \<open>2i+2\<close> that lies inside the element sequence.
\<close>

definition heap_property :: "'a Heap \<Rightarrow> bool" where
  "heap_property h \<longleftrightarrow>
     (\<forall>i \<in> {0..<Size h}. \<forall>c \<in> {2 * i + 1, 2 * i + 2}.
        c < Size h \<longrightarrow> compare h (elements h ! i) (elements h ! c) \<le> 0)"

text \<open>
  The sift-up loop as the specification words it, for comparison with \<open>upHeap\<close>: swap
  upward while the element compares (strictly) less than its parent and is not the root.
\<close>

function upHeap_spec :: "'a Heap \<Rightarrow> nat \<Rightarrow> 'a Heap" where
  "upHeap_spec h i =
     (let parent = (i - 1) div 2 in
      if i > 0 \<and> compare h (elements h ! i) (elements h ! parent) < 0
      then upHeap_spec
             (h\<lparr>elements := (elements h)[i := elements h ! parent, parent := elements h ! i]\<rparr>)
             parent
      else h)"
  by pat_completeness auto
termination
  by (relation "measure (\<lambda>(h, i). i)") auto

declare upHeap_spec.simps [simp del]

section \<open>Sift-up and sift-down restore the heap property\<close>

text \<open>
  For the proofs: the heap property read from the child (\<open>parent_le\<close>), the index that
  \<open>downHeap\<close> picks in one round (\<open>smallest_child\<close>), and the invariants of the two
  loops: the heap property holds everywhere except at the edges that touch the
  element on the move, and the elements around it are already in order.
\<close>

definition parent_le :: "'a Heap \<Rightarrow> nat \<Rightarrow> bool" where
  "parent_le h j \<longleftrightarrow> compare h (elements h ! ((j - 1) div 2)) (elements h ! j) \<le> 0"

definition up_inv :: "'a Heap \<Rightarrow> nat \<Rightarrow> bool" where
  "up_inv h i \<longleftrightarrow> i < Size h \<and>
     (\<forall>j. 0 < j \<and> j < Size h \<and> j \<noteq> i \<longrightarrow> parent_le h j) \<and>
     (\<forall>j. 0 < i \<and> 0 < j \<and> j < Size h \<and> (j - 1) div 2 = i \<longrightarrow>
          compare h (elements h ! ((i - 1) div 2)) (elements h ! j) \<le> 0)"

definition smallest_child :: "'a Heap \<Rightarrow> nat \<Rightarrow> nat" where
  "smallest_child h i =
     (let left = 2 * i + 1;
          right = 2 * i + 2;
          smallest = i;
          smallest = (if left < Size h \<and>
                         compare h (elements h ! left) (elements h ! smallest) < 0
                      then left else smallest);
          smallest = (if right < Size h \<and>
                         compare h (elements h ! right) (elements h ! smallest) < 0
                      then right else smallest)
      in smallest)"

definition down_inv :: "'a Heap \<Rightarrow> nat \<Rightarrow> bool" where
  "down_inv h i \<longleftrightarrow>
     (\<forall>j. 0 < j \<and> j < Size h \<and> (j - 1) div 2 \<noteq> i \<longrightarrow> parent_le h j) \<and>
     (\<forall>j. 0 < i \<and> 0 < j \<and> j < Size h \<and> (j - 1) div 2 = i \<longrightarrow>
          compare h (elements h ! ((i - 1) div 2)) (elements h ! j) \<le> 0)"

lemma heap_property_parent:
  "heap_property h \<longleftrightarrow> (\<forall>j. 0 < j \<and> j < Size h \<longrightarrow> parent_le h j)"
proof
  assume H: "heap_property h"
  show "\<forall>j. 0 < j \<and> j < Size h \<longrightarrow> parent_le h j"
  proof (intro allI impI)
    fix j assume j: "0 < j \<and> j < Size h"
    let ?i = "(j - 1) div 2"
    have "?i < Size h" using j by arith
    moreover have "j = 2 * ?i + 1 \<or> j = 2 * ?i + 2" using j by arith
    then have "j \<in> {2 * ?i + 1, 2 * ?i + 2}" by blast
    ultimately have "compare h (elements h ! ?i) (elements h ! j) \<le> 0"
      using H j unfolding heap_property_def by (metis atLeastLessThan_iff le0)
    then show "parent_le h j" by (simp add: parent_le_def)
  qed
next
  assume P: "\<forall>j. 0 < j \<and> j < Size h \<longrightarrow> parent_le h j"
  show "heap_property h"
    unfolding heap_property_def
  proof (intro ballI impI)
    fix i c assume "i \<in> {0..<Size h}" "c \<in> {2 * i + 1, 2 * i + 2}" "c < Size h"
    then have "0 < c \<and> c < Size h" "(c - 1) div 2 = i" by auto
    then show "compare h (elements h ! i) (elements h ! c) \<le> 0"
      using P unfolding parent_le_def by blast
  qed
qed

lemma cmp_trans:
  "total_order_cmp cmp \<Longrightarrow> cmp a b \<le> 0 \<Longrightarrow> cmp b c \<le> 0 \<Longrightarrow> cmp a c \<le> 0"
  unfolding total_order_cmp_def by blast

lemma cmp_flip: "total_order_cmp cmp \<Longrightarrow> (cmp a b < 0) = (cmp b a > 0)"
  unfolding total_order_cmp_def by blast

lemma cmp_refl: "total_order_cmp cmp \<Longrightarrow> cmp a a = 0"
  using cmp_flip [of cmp a a] by arith

lemma cmp_gt_le: "total_order_cmp cmp \<Longrightarrow> cmp a b > 0 \<Longrightarrow> cmp b a \<le> 0"
  using cmp_flip [of cmp b a] by arith

lemma cmp_not_lt_le: "total_order_cmp cmp \<Longrightarrow> \<not> cmp a b < 0 \<Longrightarrow> cmp b a \<le> 0"
  using cmp_flip [of cmp a b] by arith

lemma cmp_lt_le: "total_order_cmp cmp \<Longrightarrow> cmp a b < 0 \<Longrightarrow> cmp a b \<le> 0"
  by arith

lemma cmp_lt_trans:
  assumes T: "total_order_cmp cmp" and ab: "cmp a b < 0" and bc: "cmp b c < 0"
  shows "cmp a c < 0"
proof (rule ccontr)
  assume "\<not> cmp a c < 0"
  then have "cmp c a \<le> 0" by (rule cmp_not_lt_le [OF T])
  then have "cmp c b \<le> 0" using cmp_trans [OF T _ cmp_lt_le [OF T ab]] by blast
  moreover have "cmp c b > 0" using bc cmp_flip [OF T, of b c] by simp
  ultimately show False by arith
qed

lemma up_inv_step:
  assumes T: "total_order_cmp (compare h)" and I: "up_inv h i" and i: "0 < i"
    and le: "compare h (elements h ! i) (elements h ! ((i - 1) div 2)) \<le> 0"
  shows "up_inv (h\<lparr>elements := (elements h)[i := elements h ! ((i - 1) div 2),
                    (i - 1) div 2 := elements h ! i]\<rparr>) ((i - 1) div 2)"
proof -
  let ?p = "(i - 1) div 2"
  let ?es = "elements h"
  let ?es' = "?es[i := ?es ! ?p, ?p := ?es ! i]"
  let ?h' = "h\<lparr>elements := ?es'\<rparr>"
  let ?n = "length ?es"
  have n: "i < ?n" "?p < i" "?p < ?n" using I i by (auto simp: up_inv_def Size_def)
  have P1: "\<And>j. 0 < j \<Longrightarrow> j < ?n \<Longrightarrow> j \<noteq> i \<Longrightarrow> compare h (?es ! ((j - 1) div 2)) (?es ! j) \<le> 0"
    using I by (auto simp: up_inv_def Size_def parent_le_def)
  have P2: "\<And>j. 0 < j \<Longrightarrow> j < ?n \<Longrightarrow> (j - 1) div 2 = i \<Longrightarrow> compare h (?es ! ?p) (?es ! j) \<le> 0"
    using I i by (auto simp: up_inv_def Size_def)
  have A: "parent_le ?h' j" if j: "0 < j" "j < ?n" "j \<noteq> ?p" for j
  proof (cases "j = i")
    case True
    then show ?thesis using n le by (simp add: parent_le_def)
  next
    case ji: False
    let ?q = "(j - 1) div 2"
    have q: "?q < ?n" using j by arith
    consider "?q = i" | "?q = ?p" | "?q \<noteq> i \<and> ?q \<noteq> ?p" by blast
    then show ?thesis
    proof cases
      case 1
      then show ?thesis using P2 [OF j(1,2)] j ji n by (simp add: parent_le_def)
    next
      case 2
      have "compare h (?es ! i) (?es ! j) \<le> 0"
        using cmp_trans [OF T le] P1 [OF j(1,2) ji] 2 by simp
      then show ?thesis using 2 j ji n by (simp add: parent_le_def)
    next
      case 3
      then show ?thesis using P1 [OF j(1,2) ji] j ji n by (simp add: parent_le_def)
    qed
  qed
  have B: "compare h (?es' ! ((?p - 1) div 2)) (?es' ! j) \<le> 0"
    if j: "0 < ?p" "0 < j" "j < ?n" "(j - 1) div 2 = ?p" for j
  proof -
    let ?pp = "(?p - 1) div 2"
    have pp: "?pp < ?p" using j by arith
    have e: "?es' ! ?pp = ?es ! ?pp" using pp n by simp
    have g: "compare h (?es ! ?pp) (?es ! ?p) \<le> 0"
      using P1 [of ?p] j n by simp
    show ?thesis
    proof (cases "j = i")
      case True
      then show ?thesis using e g n by simp
    next
      case False
      have "j \<noteq> ?p" using j by arith
      moreover have "compare h (?es ! ?pp) (?es ! j) \<le> 0"
        using cmp_trans [OF T g] P1 [OF j(2,3) False] j(4) by simp
      ultimately show ?thesis using e False by simp
    qed
  qed
  show ?thesis
    unfolding up_inv_def using A B n by (simp add: Size_def)
qed

lemma upHeap_heap_property:
  "total_order_cmp (compare h) \<Longrightarrow> up_inv h i \<Longrightarrow> heap_property (upHeap h i)"
proof (induction h i rule: upHeap.induct)
  case (1 h i)
  show ?case
  proof (cases "0 < i")
    case False
    then have "upHeap h i = h" by (subst upHeap.simps) simp
    moreover have "heap_property h"
      using "1.prems" False by (auto simp: heap_property_parent up_inv_def)
    ultimately show ?thesis by simp
  next
    case i: True
    let ?p = "(i - 1) div 2"
    show ?thesis
    proof (cases "compare h (elements h ! i) (elements h ! ?p) > 0")
      case True
      then have "upHeap h i = h" using i by (subst upHeap.simps) simp
      moreover have "parent_le h i"
        using cmp_gt_le [OF "1.prems"(1) True] by (simp add: parent_le_def)
      then have "heap_property h"
        using "1.prems"(2) unfolding heap_property_parent up_inv_def by metis
      ultimately show ?thesis by simp
    next
      case False
      let ?h' = "h\<lparr>elements := (elements h)[i := elements h ! ?p, ?p := elements h ! i]\<rparr>"
      have le: "compare h (elements h ! i) (elements h ! ?p) \<le> 0" using False by arith
      have "up_inv ?h' ?p" by (rule up_inv_step [OF "1.prems" i le])
      moreover have "total_order_cmp (compare ?h')" using "1.prems"(1) by simp
      ultimately have "heap_property (upHeap ?h' ?p)"
        using "1.IH" [OF i refl False] by simp
      moreover have "upHeap h i = upHeap ?h' ?p"
        using i False by (subst upHeap.simps) (simp add: Let_def)
      ultimately show ?thesis by simp
    qed
  qed
qed

lemma downHeap_unfold:
  "downHeap h i =
     (let s = smallest_child h i in
      if s = i then h
      else downHeap (h\<lparr>elements := (elements h)[i := elements h ! s, s := elements h ! i]\<rparr>) s)"
  by (subst downHeap.simps) (simp add: smallest_child_def Let_def)

lemma smallest_child_range:
  "smallest_child h i = i \<or>
   (smallest_child h i < Size h \<and> (smallest_child h i - 1) div 2 = i \<and> i < smallest_child h i)"
  by (auto simp: smallest_child_def Let_def)

lemma smallest_child_stay:
  assumes T: "total_order_cmp (compare h)" and s: "smallest_child h i = i"
    and j: "j < Size h" "j = 2 * i + 1 \<or> j = 2 * i + 2"
  shows "compare h (elements h ! i) (elements h ! j) \<le> 0"
proof -
  have "\<not> compare h (elements h ! j) (elements h ! i) < 0"
    using s j by (auto simp: smallest_child_def Let_def split: if_splits)
  then show ?thesis by (rule cmp_not_lt_le [OF T])
qed

lemma smallest_child_move:
  assumes T: "total_order_cmp (compare h)" and s: "smallest_child h i \<noteq> i"
  shows "compare h (elements h ! smallest_child h i) (elements h ! i) < 0"
    and "j < Size h \<Longrightarrow> j = 2 * i + 1 \<or> j = 2 * i + 2 \<Longrightarrow>
         compare h (elements h ! smallest_child h i) (elements h ! j) \<le> 0"
proof -
  let ?l = "2 * i + 1" and ?r = "2 * i + 2"
  let ?e = "\<lambda>k. elements h ! k"
  let ?c = "compare h"
  consider
    (L) "smallest_child h i = ?l" "?l < Size h" "?c (?e ?l) (?e i) < 0"
        "\<not> (?r < Size h \<and> ?c (?e ?r) (?e ?l) < 0)"
  | (R1) "smallest_child h i = ?r" "?r < Size h" "?c (?e ?l) (?e i) < 0" "?c (?e ?r) (?e ?l) < 0"
  | (R2) "smallest_child h i = ?r" "?r < Size h" "\<not> ?c (?e ?l) (?e i) < 0" "?c (?e ?r) (?e i) < 0"
    using s by (auto simp: smallest_child_def Let_def split: if_splits)
  then have "?c (?e (smallest_child h i)) (?e i) < 0 \<and>
     (j < Size h \<longrightarrow> j = ?l \<or> j = ?r \<longrightarrow> ?c (?e (smallest_child h i)) (?e j) \<le> 0)"
  proof cases
    case L
    have "?c (?e ?l) (?e ?r) \<le> 0" if "?r < Size h"
      using L(4) that cmp_not_lt_le [OF T] by blast
    then show ?thesis using L cmp_refl [OF T] by auto
  next
    case R1
    have "?c (?e ?r) (?e i) < 0" by (rule cmp_lt_trans [OF T R1(4) R1(3)])
    then show ?thesis using R1 cmp_refl [OF T] by auto
  next
    case R2
    have "?c (?e i) (?e ?l) \<le> 0" by (rule cmp_not_lt_le [OF T R2(3)])
    then have "?c (?e ?r) (?e ?l) \<le> 0"
      using cmp_trans [OF T cmp_lt_le [OF T R2(4)]] by blast
    then show ?thesis using R2 cmp_refl [OF T] by auto
  qed
  then show "compare h (elements h ! smallest_child h i) (elements h ! i) < 0"
    and "j < Size h \<Longrightarrow> j = 2 * i + 1 \<or> j = 2 * i + 2 \<Longrightarrow>
         compare h (elements h ! smallest_child h i) (elements h ! j) \<le> 0"
    by blast+
qed

lemma down_inv_step:
  assumes T: "total_order_cmp (compare h)" and I: "down_inv h i"
    and s: "smallest_child h i = s" "s \<noteq> i"
  shows "down_inv (h\<lparr>elements := (elements h)[i := elements h ! s, s := elements h ! i]\<rparr>) s"
proof -
  let ?es = "elements h"
  let ?es' = "?es[i := ?es ! s, s := ?es ! i]"
  let ?h' = "h\<lparr>elements := ?es'\<rparr>"
  let ?n = "length ?es"
  have n: "s < ?n" "(s - 1) div 2 = i" "i < s" "i < ?n"
    using smallest_child_range [of h i] s by (auto simp: Size_def)
  have si: "compare h (?es ! s) (?es ! i) \<le> 0"
    using smallest_child_move(1) [OF T] s by fastforce
  have sib: "\<And>j. 0 < j \<Longrightarrow> j < ?n \<Longrightarrow> (j - 1) div 2 = i \<Longrightarrow> compare h (?es ! s) (?es ! j) \<le> 0"
  proof -
    fix j assume j: "0 < j" "j < ?n" "(j - 1) div 2 = i"
    then have "j = 2 * i + 1 \<or> j = 2 * i + 2" by arith
    then show "compare h (?es ! s) (?es ! j) \<le> 0"
      using smallest_child_move(2) [OF T, of i j] s j by (simp add: Size_def)
  qed
  have P1: "\<And>j. 0 < j \<Longrightarrow> j < ?n \<Longrightarrow> (j - 1) div 2 \<noteq> i \<Longrightarrow> compare h (?es ! ((j - 1) div 2)) (?es ! j) \<le> 0"
    using I by (auto simp: down_inv_def Size_def parent_le_def)
  have P2: "\<And>j. 0 < i \<Longrightarrow> 0 < j \<Longrightarrow> j < ?n \<Longrightarrow> (j - 1) div 2 = i \<Longrightarrow> compare h (?es ! ((i - 1) div 2)) (?es ! j) \<le> 0"
    using I by (auto simp: down_inv_def Size_def)
  have A: "parent_le ?h' j" if j: "0 < j" "j < ?n" "(j - 1) div 2 \<noteq> s" for j
  proof -
    let ?q = "(j - 1) div 2"
    have q: "?q < ?n" "?q < j" using j by arith+
    consider "j = s" | "j = i" | "j \<noteq> s \<and> j \<noteq> i \<and> ?q = i" | "j \<noteq> s \<and> j \<noteq> i \<and> ?q \<noteq> i"
      by blast
    then show ?thesis
    proof cases
      case 1
      then show ?thesis using n si by (simp add: parent_le_def)
    next
      case 2
      have "?q \<noteq> s" "?q \<noteq> i" using 2 q n by arith+
      moreover have "compare h (?es ! ?q) (?es ! s) \<le> 0"
        using P2 [of s] 2 j n by simp
      ultimately show ?thesis using 2 n by (simp add: parent_le_def)
    next
      case 3
      then show ?thesis using sib [OF j(1,2)] n j by (simp add: parent_le_def)
    next
      case 4
      then show ?thesis using P1 [OF j(1,2)] n j by (simp add: parent_le_def)
    qed
  qed
  have B: "compare h (?es' ! ((s - 1) div 2)) (?es' ! j) \<le> 0"
    if j: "0 < j" "j < ?n" "(j - 1) div 2 = s" for j
  proof -
    have "j \<noteq> s" "j \<noteq> i" using j n by arith+
    moreover have "compare h (?es ! s) (?es ! j) \<le> 0"
      using P1 [OF j(1,2)] j(3) n by simp
    ultimately show ?thesis using n by simp
  qed
  show ?thesis
    unfolding down_inv_def
  proof (intro conjI allI impI)
    fix j assume "0 < j \<and> j < Size ?h' \<and> (j - 1) div 2 \<noteq> s"
    then show "parent_le ?h' j" using A [of j] by (simp add: Size_def)
  next
    fix j assume "0 < s \<and> 0 < j \<and> j < Size ?h' \<and> (j - 1) div 2 = s"
    then have "0 < j" "j < ?n" "(j - 1) div 2 = s" by (simp_all add: Size_def)
    from B [OF this]
    show "compare ?h' (elements ?h' ! ((s - 1) div 2)) (elements ?h' ! j) \<le> 0" by simp
  qed
qed

lemma downHeap_heap_property:
  "total_order_cmp (compare h) \<Longrightarrow> down_inv h i \<Longrightarrow> heap_property (downHeap h i)"
proof (induction "Size h - i" arbitrary: h i rule: less_induct)
  case less
  let ?s = "smallest_child h i"
  show ?case
  proof (cases "?s = i")
    case True
    then have "downHeap h i = h" by (subst downHeap_unfold) simp
    moreover have "parent_le h j" if j: "0 < j" "j < Size h" for j
    proof (cases "(j - 1) div 2 = i")
      case False
      then show ?thesis using less.prems(2) j by (simp add: down_inv_def)
    next
      case eq: True
      then have "j = 2 * i + 1 \<or> j = 2 * i + 2" using j by arith
      then show ?thesis
        using smallest_child_stay [OF less.prems(1) True j(2)] eq by (simp add: parent_le_def)
    qed
    then have "heap_property h" by (simp add: heap_property_parent)
    ultimately show ?thesis by simp
  next
    case False
    let ?h' = "h\<lparr>elements := (elements h)[i := elements h ! ?s, ?s := elements h ! i]\<rparr>"
    have r: "?s < Size h" "i < ?s" using smallest_child_range [of h i] False by auto
    have "down_inv ?h' ?s" by (rule down_inv_step [OF less.prems refl False])
    moreover have "total_order_cmp (compare ?h')" using less.prems(1) by simp
    moreover have "Size ?h' - ?s < Size h - i" using r by (simp add: Size_def)
    ultimately have "heap_property (downHeap ?h' ?s)" using less.hyps by blast
    moreover have "downHeap h i = downHeap ?h' ?s"
      using False by (subst downHeap_unfold) (simp add: Let_def)
    ultimately show ?thesis by simp
  qed
qed

section \<open>What the operations keep: comparator, size, elements\<close>

lemma upHeap_compare [simp]: "compare (upHeap h i) = compare h"
  by (induction h i rule: upHeap.induct) (subst upHeap.simps, simp add: Let_def)

lemma upHeap_Size [simp]: "Size (upHeap h i) = Size h"
  by (induction h i rule: upHeap.induct) (subst upHeap.simps, simp add: Let_def Size_def)

lemma upHeap_mset:
  "i < Size h \<Longrightarrow> mset (elements (upHeap h i)) = mset (elements h)"
proof (induction h i rule: upHeap.induct)
  case (1 h i)
  let ?p = "(i - 1) div 2"
  have p: "?p < length (elements h)" using "1.prems" by (simp add: Size_def)
  have sw: "mset ((elements h)[i := elements h ! ?p, ?p := elements h ! i]) = mset (elements h)"
    using "1.prems" p by (simp add: mset_swap Size_def)
  show ?case
    using "1.IH" "1.prems" p sw by (subst upHeap.simps) (simp add: Let_def Size_def)
qed

lemma downHeap_compare [simp]: "compare (downHeap h i) = compare h"
proof (induction "Size h - i" arbitrary: h i rule: less_induct)
  case less
  show ?case
    using less [of _ "smallest_child h i"] smallest_child_range [of h i]
    by (subst downHeap_unfold) (auto simp: Let_def Size_def)
qed

lemma downHeap_Size [simp]: "Size (downHeap h i) = Size h"
proof (induction "Size h - i" arbitrary: h i rule: less_induct)
  case less
  show ?case
    using less [of _ "smallest_child h i"] smallest_child_range [of h i]
    by (subst downHeap_unfold) (auto simp: Let_def Size_def)
qed

lemma downHeap_mset: "mset (elements (downHeap h i)) = mset (elements h)"
proof (induction "Size h - i" arbitrary: h i rule: less_induct)
  case less
  let ?s = "smallest_child h i"
  show ?case
  proof (cases "?s = i")
    case True
    then show ?thesis by (subst downHeap_unfold) simp
  next
    case False
    let ?h' = "h\<lparr>elements := (elements h)[i := elements h ! ?s, ?s := elements h ! i]\<rparr>"
    have r: "?s < Size h" "i < ?s" using smallest_child_range [of h i] False by auto
    have "Size ?h' - ?s < Size h - i" using r by (simp add: Size_def)
    then have "mset (elements (downHeap ?h' ?s)) = mset (elements ?h')" by (rule less)
    also have "\<dots> = mset (elements h)" using r by (simp add: mset_swap Size_def)
    finally show ?thesis using False by (subst downHeap_unfold) (simp add: Let_def)
  qed
qed

lemma downHeap_below:
  "j < i \<Longrightarrow> elements (downHeap h i) ! j = elements h ! j"
proof (induction "Size h - i" arbitrary: h i rule: less_induct)
  case less
  let ?s = "smallest_child h i"
  show ?case
  proof (cases "?s = i")
    case True
    then show ?thesis by (subst downHeap_unfold) simp
  next
    case False
    let ?h' = "h\<lparr>elements := (elements h)[i := elements h ! ?s, ?s := elements h ! i]\<rparr>"
    have r: "?s < Size h" "i < ?s" using smallest_child_range [of h i] False by auto
    have "Size ?h' - ?s < Size h - i" using r by (simp add: Size_def)
    moreover have "j < ?s" using r less.prems by simp
    ultimately have "elements (downHeap ?h' ?s) ! j = elements ?h' ! j" by (rule less.hyps)
    also have "\<dots> = elements h ! j" using r less.prems by simp
    finally show ?thesis using False by (subst downHeap_unfold) (simp add: Let_def)
  qed
qed

lemma upHeap_rest:
  "i < Size h \<Longrightarrow>
   \<exists>k\<le>i. elements (upHeap h i) ! k = elements h ! i \<and>
     (k = 0 \<or> compare h (elements h ! i) (elements (upHeap h i) ! ((k - 1) div 2)) > 0)"
proof (induction h i rule: upHeap.induct)
  case (1 h i)
  let ?p = "(i - 1) div 2"
  show ?case
  proof (cases "0 < i \<and> \<not> compare h (elements h ! i) (elements h ! ?p) > 0")
    case False
    then have "upHeap h i = h" by (subst upHeap.simps) (auto simp: Let_def)
    then show ?thesis using False by auto
  next
    case True
    let ?h' = "h\<lparr>elements := (elements h)[i := elements h ! ?p, ?p := elements h ! i]\<rparr>"
    have p: "?p < Size ?h'" "?p < length (elements h)" "?p \<le> i"
      using "1.prems" by (simp_all add: Size_def)
    have u: "upHeap h i = upHeap ?h' ?p"
      using True by (subst upHeap.simps) (simp add: Let_def)
    have "\<exists>k\<le>?p. elements (upHeap ?h' ?p) ! k = elements ?h' ! ?p \<and>
       (k = 0 \<or> compare ?h' (elements ?h' ! ?p) (elements (upHeap ?h' ?p) ! ((k - 1) div 2)) > 0)"
      using "1.IH" [OF _ refl _ p(1)] True by blast
    then obtain k where "k \<le> ?p" "elements (upHeap ?h' ?p) ! k = elements h ! i"
      "k = 0 \<or> compare h (elements h ! i) (elements (upHeap ?h' ?p) ! ((k - 1) div 2)) > 0"
      using p by auto
    then show ?thesis using u p(3) by (metis le_trans)
  qed
qed

lemma Insert_compare [simp]: "compare (Insert h x) = compare h"
  by (simp add: Insert_def Let_def)

lemma Insert_Size [simp]: "Size (Insert h x) = Suc (Size h)"
  by (simp add: Insert_def Let_def) (simp add: Size_def)

lemma Insert_mset: "mset (elements (Insert h x)) = add_mset x (mset (elements h))"
  by (simp add: Insert_def Let_def upHeap_mset Size_def)

lemma Insert_heap_property:
  assumes T: "total_order_cmp (compare h)" and H: "heap_property h"
  shows "heap_property (Insert h x)"
proof -
  let ?h1 = "h\<lparr>elements := elements h @ [x]\<rparr>"
  let ?n = "length (elements h)"
  have P: "\<And>j. 0 < j \<Longrightarrow> j < ?n \<Longrightarrow> parent_le h j"
    using H by (simp add: heap_property_parent Size_def)
  have "parent_le ?h1 j" if j: "0 < j" "j < ?n" for j
  proof -
    have "(j - 1) div 2 < ?n" using j by arith
    then show ?thesis using P [OF j] j by (simp add: parent_le_def nth_append)
  qed
  moreover have "\<not> (0 < j \<and> j < Suc ?n \<and> (j - 1) div 2 = ?n)" for j by arith
  ultimately have "up_inv ?h1 ?n"
    unfolding up_inv_def by (auto simp: Size_def less_Suc_eq)
  then have "heap_property (upHeap ?h1 ?n)"
    using T by (intro upHeap_heap_property) simp_all
  then show ?thesis by (simp add: Insert_def Let_def)
qed

lemma Remove_compare [simp]: "compare (snd (Remove h)) = compare h"
  by (simp add: Remove_def Let_def)

lemma Remove_Size: "Size (snd (Remove h)) = Size h - 1"
  by (simp add: Remove_def Let_def) (simp add: Size_def)

lemma mset_take_update_last:
  "es \<noteq> [] \<Longrightarrow>
   add_mset (es ! 0) (mset (take (length es - 1) (es[0 := es ! (length es - 1)]))) = mset es"
proof (cases es)
  case Nil
  assume "es \<noteq> []" with Nil show ?thesis by simp
next
  case (Cons x xs)
  show ?thesis
  proof (cases "xs = []")
    case True
    with Cons show ?thesis by simp
  next
    case False
    then have "length xs - 1 < length xs" by (cases xs) auto
    have l: "(x # xs) ! length xs = last xs" using False
      by (metis last_conv_nth length_Cons diff_Suc_1 nth_Cons_Suc Suc_pred length_greater_0_conv)
    have "take (length xs) (last xs # xs) = last xs # butlast xs"
      using False by (cases xs rule: rev_cases) auto
    moreover have "add_mset (last xs) (mset (butlast xs)) = mset xs"
      using False by (cases xs rule: rev_cases) auto
    ultimately show ?thesis using Cons l by simp
  qed
qed

lemma Remove_mset:
  "0 < Size h \<Longrightarrow> add_mset (elements h ! 0) (mset (elements (snd (Remove h)))) = mset (elements h)"
  using mset_take_update_last [of "elements h"]
  by (simp add: Remove_def Let_def downHeap_mset Size_def)

lemma Remove_heap_property:
  assumes T: "total_order_cmp (compare h)" and H: "heap_property h"
  shows "heap_property (snd (Remove h))"
proof (cases "Size h = 0")
  case True
  then show ?thesis using H by (simp add: Remove_def)
next
  case False
  let ?es = "elements h"
  let ?n = "length ?es"
  let ?es2 = "take (?n - 1) (?es[0 := ?es ! (?n - 1)])"
  let ?h2 = "h\<lparr>elements := ?es2\<rparr>"
  have P: "\<And>j. 0 < j \<Longrightarrow> j < ?n \<Longrightarrow> parent_le h j"
    using H by (simp add: heap_property_parent Size_def)
  have "parent_le ?h2 j" if j: "0 < j" "j < ?n - 1" "(j - 1) div 2 \<noteq> 0" for j
  proof -
    have "(j - 1) div 2 < ?n - 1" using j by arith
    then show ?thesis using P [of j] j by (simp add: parent_le_def)
  qed
  then have "down_inv ?h2 0" unfolding down_inv_def by (simp add: Size_def)
  then have "heap_property (downHeap ?h2 0)"
    using T by (intro downHeap_heap_property) simp_all
  then show ?thesis using False by (simp add: Remove_def Let_def Size_def)
qed

lemma heap_root_least:
  assumes T: "total_order_cmp (compare h)" and H: "heap_property h"
  shows "j < Size h \<Longrightarrow> compare h (elements h ! 0) (elements h ! j) \<le> 0"
proof (induction j rule: less_induct)
  case (less j)
  show ?case
  proof (cases "j = 0")
    case True
    then show ?thesis using cmp_refl [OF T] by simp
  next
    case False
    let ?p = "(j - 1) div 2"
    have "?p < j" using False by arith
    then have "compare h (elements h ! 0) (elements h ! ?p) \<le> 0"
      using less by simp
    moreover have "compare h (elements h ! ?p) (elements h ! j) \<le> 0"
      using H False less.prems by (simp add: heap_property_parent parent_le_def)
    ultimately show ?thesis by (rule cmp_trans [OF T])
  qed
qed

lemma Size_drained: "Size (((\<lambda>h. snd (Remove h)) ^^ n) h) = Size h - n"
  by (induction n) (simp_all add: Remove_Size)

section \<open>Draining a heap\<close>

lemma drain_step:
  "0 < Size h \<Longrightarrow> drain h = elements h ! 0 # drain (snd (Remove h))"
  by (subst drain.simps) (simp add: Remove_def Let_def)

lemma drain_empty: "Size h = 0 \<Longrightarrow> drain h = []"
  by (subst drain.simps) simp

lemma drain_mset: "mset (drain h) = mset (elements h)"
proof (induction "Size h" arbitrary: h)
  case 0
  then show ?case by (simp add: drain_empty Size_def)
next
  case (Suc n)
  then have pos: "0 < Size h" by simp
  have "Size (snd (Remove h)) = n" using Suc(2) by (simp add: Remove_Size)
  then have "mset (drain (snd (Remove h))) = mset (elements (snd (Remove h)))"
    using Suc(1) by simp
  then show ?case using Remove_mset [OF pos] by (simp add: drain_step [OF pos])
qed

lemma drain_sorted:
  "total_order_cmp (compare h) \<Longrightarrow> heap_property h \<Longrightarrow>
   sorted_wrt (\<lambda>a b. compare h a b \<le> 0) (drain h)"
proof (induction "Size h" arbitrary: h)
  case 0
  then show ?case by (simp add: drain_empty)
next
  case (Suc n)
  then have pos: "0 < Size h" by simp
  let ?h' = "snd (Remove h)"
  have "Size ?h' = n" using Suc(2) by (simp add: Remove_Size)
  moreover have "heap_property ?h'" by (rule Remove_heap_property [OF Suc(3,4)])
  ultimately have S: "sorted_wrt (\<lambda>a b. compare h a b \<le> 0) (drain ?h')"
    using Suc(1) [of ?h'] Suc(3) by simp
  have "compare h (elements h ! 0) y \<le> 0" if "y \<in> set (drain ?h')" for y
  proof -
    have "y \<in># mset (elements ?h')" using that drain_mset [of ?h'] by (metis set_mset_mset)
    then have "y \<in># mset (elements h)" using Remove_mset [OF pos] by (metis insert_iff set_mset_add_mset_insert)
    then obtain j where "j < length (elements h)" "elements h ! j = y"
      by (metis in_set_conv_nth set_mset_mset)
    then show ?thesis using heap_root_least [OF Suc(3,4), of j] by (simp add: Size_def)
  qed
  then show ?case using S by (simp add: drain_step [OF pos])
qed

lemma insert_all_compare [simp]: "compare (insert_all h xs) = compare h"
  by (induction xs arbitrary: h) simp_all

lemma insert_all_mset: "mset (elements (insert_all h xs)) = mset xs + mset (elements h)"
  by (induction xs arbitrary: h) (simp_all add: Insert_mset)

lemma insert_all_heap_property:
  "total_order_cmp (compare h) \<Longrightarrow> heap_property h \<Longrightarrow> heap_property (insert_all h xs)"
  by (induction xs arbitrary: h) (simp_all add: Insert_heap_property)

lemma heap_property_empty: "elements h = [] \<Longrightarrow> heap_property h"
  by (simp add: heap_property_def Size_def)

lemma total_order_cmp_swap: "total_order_cmp cmp \<Longrightarrow> total_order_cmp (\<lambda>a b. cmp b a)"
  unfolding total_order_cmp_def by metis

lemma total_order_intComparator: "total_order_cmp intComparator"
  unfolding total_order_cmp_def intComparator_def word_sless_alt
  by auto

lemma NewMinHeap_eq: "NewMinHeap cmp = NewGenericHeap cmp"
  by (simp add: NewMinHeap_def NewGenericHeap_def)

lemma NewMaxHeap_eq: "NewMaxHeap cmp = NewGenericHeap (\<lambda>a b. cmp b a)"
  by (simp add: NewMaxHeap_def NewGenericHeap_def)

lemma sorted_from_empty:
  assumes "total_order_cmp cmp"
  shows "sorted_wrt (\<lambda>a b. cmp a b \<le> 0) (drain (insert_all (NewGenericHeap cmp) xs))"
proof -
  let ?h = "NewGenericHeap cmp"
  have "heap_property ?h" by (simp add: heap_property_empty NewGenericHeap_def)
  moreover have c: "compare ?h = cmp" by (simp add: NewGenericHeap_def)
  ultimately have "heap_property (insert_all ?h xs)"
    using assms by (simp add: insert_all_heap_property)
  then have "sorted_wrt (\<lambda>a b. compare (insert_all ?h xs) a b \<le> 0) (drain (insert_all ?h xs))"
    using assms c by (intro drain_sorted) simp_all
  then show ?thesis using c by simp
qed

lemma mset_from_empty: "mset (drain (insert_all (NewGenericHeap cmp) xs)) = mset xs"
  by (simp add: drain_mset insert_all_mset NewGenericHeap_def)

lemma heap_call_compare [simp]: "compare (heap_call h c) = compare h"
  by (cases c) simp_all

lemma heap_call_heap_property:
  "total_order_cmp (compare h) \<Longrightarrow> heap_property h \<Longrightarrow> heap_property (heap_call h c)"
  by (cases c) (simp_all add: Insert_heap_property Remove_heap_property)

lemma heap_states_heap_property:
  "total_order_cmp (compare h) \<Longrightarrow> heap_property h \<Longrightarrow>
   list_all (\<lambda>s. heap_property s \<and> compare s = compare h) (heap_states h cs)"
proof (induction cs arbitrary: h)
  case Nil
  show ?case by simp
next
  case (Cons c cs)
  have "list_all (\<lambda>s. heap_property s \<and> compare s = compare (heap_call h c))
          (heap_states (heap_call h c) cs)"
    using Cons.prems by (intro Cons.IH) (simp_all add: heap_call_heap_property)
  then show ?case using Cons.prems by (simp add: Let_def heap_call_heap_property)
qed

section \<open>The priority queue's comparators and calls\<close>

lemma pq_call_compare: "compare (heap (snd (pq_call pq c))) = compare (heap pq)"
  by (cases c)
    (auto simp: Enqueue_def Dequeue_def pq_Peek_def Peek_def Clear_def Comparator_def
      NewGenericHeap_def split: prod.splits sum.splits
      dest: arg_cong [where f = "\<lambda>x. compare (snd x)"])

lemma pq_calls_compare: "compare (heap (snd (pq_calls pq cs))) = compare (heap pq)"
proof (induction cs arbitrary: pq)
  case Nil
  show ?case by simp
next
  case (Cons c cs)
  have "compare (heap (snd (pq_calls (snd (pq_call pq c)) cs))) = compare (heap pq)"
    using Cons [of "snd (pq_call pq c)"] pq_call_compare [of pq c] by simp
  moreover have "snd (pq_calls pq (c # cs)) = snd (pq_calls (snd (pq_call pq c)) cs)"
    by (simp split: prod.splits)
  ultimately show ?case by (simp only:)
qed

lemma Clear_eq: "Clear pq = \<lparr>heap = NewGenericHeap (compare (heap pq))\<rparr>"
  by (cases pq) (simp add: Clear_def Comparator_def)

lemma Clear_after_calls_min: "Clear (snd (pq_calls NewMinPriorityQueue cs)) = NewMinPriorityQueue"
  by (simp add: Clear_eq pq_calls_compare) (simp add: NewMinPriorityQueue_def NewGenericHeap_def)

lemma Clear_after_calls_max: "Clear (snd (pq_calls NewMaxPriorityQueue cs)) = NewMaxPriorityQueue"
  by (simp add: Clear_eq pq_calls_compare) (simp add: NewMaxPriorityQueue_def NewGenericHeap_def)

lemma sint_sub_cases:
  fixes p q :: "'w::len word"
  shows "(- (2 ^ (LENGTH('w) - 1)) \<le> sint p - sint q \<and> sint p - sint q < 2 ^ (LENGTH('w) - 1) \<longrightarrow>
            sint (p - q) = sint p - sint q) \<and>
         (2 ^ (LENGTH('w) - 1) \<le> sint p - sint q \<longrightarrow> sint (p - q) < 0) \<and>
         (sint p - sint q < - (2 ^ (LENGTH('w) - 1)) \<longrightarrow> 0 < sint (p - q))"
proof -
  let ?n = "LENGTH('w) - 1"
  let ?d = "sint p - sint q"
  have s: "sint (p - q) = signed_take_bit ?n ?d" by (simp add: sint_word_ariths)
  have bp: "- (2 ^ ?n) \<le> sint p" "sint p < 2 ^ ?n" using sint_ge [of p] sint_lt [of p] by simp_all
  have bq: "- (2 ^ ?n) \<le> sint q" "sint q < 2 ^ ?n" using sint_ge [of q] sint_lt [of q] by simp_all
  have e: "(2::int) ^ Suc ?n = 2 * 2 ^ ?n" by (rule power_Suc)
  have 1: "- (2 ^ ?n) \<le> ?d \<and> ?d < 2 ^ ?n \<longrightarrow> sint (p - q) = ?d"
    unfolding s by (simp add: signed_take_bit_int_eq_self_iff)
  have 2: "2 ^ ?n \<le> ?d \<longrightarrow> sint (p - q) < 0"
  proof
    assume "2 ^ ?n \<le> ?d"
    then have "signed_take_bit ?n ?d \<le> ?d - 2 ^ Suc ?n" by (rule signed_take_bit_int_less_eq)
    then show "sint (p - q) < 0" using bp bq unfolding s e by linarith
  qed
  have 3: "?d < - (2 ^ ?n) \<longrightarrow> 0 < sint (p - q)"
  proof
    assume "?d < - (2 ^ ?n)"
    then have "?d + 2 ^ Suc ?n \<le> signed_take_bit ?n ?d" by (rule signed_take_bit_int_greater_eq)
    then show "0 < sint (p - q)" using bp bq unfolding s e by linarith
  qed
  show ?thesis using 1 2 3 by blast
qed

lemma sint_sub_sign_iff:
  fixes p q :: "'w::len word"
  shows "((sint (p - q) < 0) = (p <s q) \<and> (0 < sint (p - q)) = (q <s p)) \<longleftrightarrow>
         (- (2 ^ (LENGTH('w) - 1)) \<le> sint p - sint q \<and> sint p - sint q < 2 ^ (LENGTH('w) - 1))"
proof -
  let ?n = "LENGTH('w) - 1"
  consider "- (2 ^ ?n) \<le> sint p - sint q \<and> sint p - sint q < 2 ^ ?n"
    | "2 ^ ?n \<le> sint p - sint q" | "sint p - sint q < - (2 ^ ?n)"
    by linarith
  then show ?thesis
  proof cases
    case 1
    then have "sint (p - q) = sint p - sint q" using sint_sub_cases [of p q] by blast
    then show ?thesis using 1 unfolding word_sless_alt by simp
  next
    case 2
    then have "sint (p - q) < 0" using sint_sub_cases [of p q] by blast
    moreover have "(0::int) < 2 ^ ?n" by simp
    ultimately show ?thesis using 2 unfolding word_sless_alt by linarith
  next
    case 3
    then have "0 < sint (p - q)" using sint_sub_cases [of p q] by blast
    moreover have "(0::int) < 2 ^ ?n" by simp
    ultimately show ?thesis using 3 unfolding word_sless_alt by linarith
  qed
qed

lemma least_word_overflow:
  assumes "2 \<le> LENGTH('w::len)"
  shows "(word_of_int (- (2 ^ (LENGTH('w) - 1))) :: 'w word) <s 1 \<and>
         0 < sint ((word_of_int (- (2 ^ (LENGTH('w) - 1))) :: 'w word) - 1)"
proof -
  let ?n = "LENGTH('w) - 1"
  let ?p = "word_of_int (- (2 ^ ?n)) :: 'w word"
  have p: "sint ?p = - (2 ^ ?n)"
    unfolding sint_sbintrunc' by (rule signed_take_bit_int_eq_self) simp_all
  have q: "sint (1 :: 'w word) = 1" using assms by simp
  have "(0::int) < 2 ^ ?n" by simp
  then have lt: "?p <s 1" unfolding word_sless_alt p q by linarith
  have "sint ?p - sint (1 :: 'w word) < - (2 ^ ?n)" unfolding p q by simp
  then have "0 < sint (?p - 1)" using sint_sub_cases [of ?p 1] by blast
  then show ?thesis using lt by blast
qed

lemma NewMin_compare:
  "compare (heap NewMinPriorityQueue) u v = sint (priority u - priority v)"
  by (simp add: NewMinPriorityQueue_def NewGenericHeap_def)

lemma NewMax_compare:
  "compare (heap NewMaxPriorityQueue) u v = sint (priority v - priority u)"
  by (simp add: NewMaxPriorityQueue_def NewGenericHeap_def)

section \<open>The properties C1 to C10\<close>

text \<open>
  C1: for every comparator that is a total order (here: any total preorder given by the
  sign of the comparator) and every finite sequence \<open>xs\<close>, inserting the elements of
  \<open>xs\<close> in the order given (hence in any order) into an empty heap built with that
  comparator and then calling \<open>Remove\<close> until the heap is empty returns exactly the
  inserted elements, in non-decreasing order under the comparator; for a heap built by
  \<open>NewMaxHeap\<close>, which swaps the comparator's arguments, they come out in
  non-increasing order.
\<close>

theorem sorted_extraction:
  assumes "total_order_cmp cmp"
  shows "sorted_wrt (\<lambda>a b. cmp a b \<le> 0) (drain (insert_all (NewGenericHeap cmp) xs)) \<and>
         mset (drain (insert_all (NewGenericHeap cmp) xs)) = mset xs \<and>
         sorted_wrt (\<lambda>a b. cmp a b \<le> 0) (drain (insert_all (NewMinHeap cmp) xs)) \<and>
         mset (drain (insert_all (NewMinHeap cmp) xs)) = mset xs \<and>
         sorted_wrt (\<lambda>a b. cmp a b \<ge> 0) (drain (insert_all (NewMaxHeap cmp) xs)) \<and>
         mset (drain (insert_all (NewMaxHeap cmp) xs)) = mset xs"
proof -
  have sw: "total_order_cmp (\<lambda>a b. cmp b a)" by (rule total_order_cmp_swap [OF assms])
  have "sorted_wrt (\<lambda>a b. cmp b a \<le> 0) (drain (insert_all (NewMaxHeap cmp) xs))"
    using sorted_from_empty [OF sw] by (simp add: NewMaxHeap_eq)
  moreover have "cmp b a \<le> 0 \<Longrightarrow> cmp a b \<ge> 0" for a b
    using cmp_flip [OF assms, of a b] by arith
  ultimately have "sorted_wrt (\<lambda>a b. cmp a b \<ge> 0) (drain (insert_all (NewMaxHeap cmp) xs))"
    by (rule sorted_wrt_mono_rel [rotated]) simp
  then show ?thesis
    using sorted_from_empty [OF assms] mset_from_empty [of cmp xs]
      mset_from_empty [of "\<lambda>a b. cmp b a" xs]
    by (simp add: NewMinHeap_eq NewMaxHeap_eq)
qed

text \<open>The theorem at \<open>intComparator\<close> and six integers, one of them twice.\<close>

theorem sorted_extraction_witness:
  "total_order_cmp intComparator \<and>
   drain (insert_all (NewMinHeap intComparator) [44, 29, 58, 2, 98, 29]) = [2, 29, 29, 44, 58, 98] \<and>
   sorted_wrt (\<lambda>a b. intComparator a b \<le> 0) [2, 29, 29, 44, 58, 98] \<and>
   drain (insert_all (NewMaxHeap intComparator) [44, 29, 58, 2, 98, 29]) = [98, 58, 44, 29, 29, 2] \<and>
   sorted_wrt (\<lambda>a b. intComparator a b \<ge> 0) [98, 58, 44, 29, 29, 2]"
proof -
  have mn: "drain (insert_all (NewMinHeap intComparator) [44, 29, 58, 2, 98, 29]) = [2, 29, 29, 44, 58, 98]"
    by code_simp
  have mx: "drain (insert_all (NewMaxHeap intComparator) [44, 29, 58, 2, 98, 29]) = [98, 58, 44, 29, 29, 2]"
    by code_simp
  show ?thesis
    using sorted_extraction [OF total_order_intComparator, of "[44, 29, 58, 2, 98, 29]"]
      total_order_intComparator
    unfolding mn mx by blast
qed

text \<open>
  C2: for every sequence of \<open>Insert\<close> and \<open>Remove\<close> calls run from the empty heap under
  a total-order comparator, the heap property holds after each call returns: for every
  index \<open>i\<close> and child index \<open>c\<close> (\<open>2i+1\<close> or \<open>2i+2\<close>) inside the element sequence,
  \<open>compare(elements[i], elements[c]) \<le> 0\<close>, where \<open>compare\<close> is the comparator the heap
  was built with (the swapped one for a heap built by \<open>NewMaxHeap\<close>).
\<close>

theorem heap_property_invariant:
  assumes "total_order_cmp cmp"
  shows "list_all (\<lambda>s. heap_property s \<and> compare s = cmp)
           (heap_states (NewGenericHeap cmp) cs) \<and>
         list_all (\<lambda>s. heap_property s \<and> compare s = cmp)
           (heap_states (NewMinHeap cmp) cs) \<and>
         list_all (\<lambda>s. heap_property s \<and> compare s = (\<lambda>a b. cmp b a))
           (heap_states (NewMaxHeap cmp) cs)"
proof -
  have "list_all (\<lambda>s. heap_property s \<and> compare s = compare (NewGenericHeap c))
          (heap_states (NewGenericHeap c) cs)" if "total_order_cmp c" for c :: "'a \<Rightarrow> 'a \<Rightarrow> int"
    using that
    by (intro heap_states_heap_property) (simp_all add: heap_property_empty NewGenericHeap_def)
  from this [OF assms] this [OF total_order_cmp_swap [OF assms]]
  show ?thesis by (simp add: NewMinHeap_eq NewMaxHeap_eq) (simp add: NewGenericHeap_def)
qed

text \<open>The heap after each of three insertions and two removals.\<close>

theorem heap_property_invariant_witness:
  "total_order_cmp intComparator \<and>
   map Elements (heap_states (NewGenericHeap intComparator)
      [CallInsert 44, CallInsert 29, CallInsert 58, CallRemove, CallRemove]) =
     [[44], [29, 44], [29, 44, 58], [44, 58], [58]] \<and>
   list_all heap_property (heap_states (NewGenericHeap intComparator)
      [CallInsert 44, CallInsert 29, CallInsert 58, CallRemove, CallRemove])"
proof -
  have e: "map Elements (heap_states (NewGenericHeap intComparator)
      [CallInsert 44, CallInsert 29, CallInsert 58, CallRemove, CallRemove]) =
     [[44], [29, 44], [29, 44, 58], [44, 58], [58]]"
    by code_simp
  have "list_all heap_property (heap_states (NewGenericHeap intComparator)
      [CallInsert 44, CallInsert 29, CallInsert 58, CallRemove, CallRemove])"
    using heap_property_invariant [OF total_order_intComparator,
        of "[CallInsert 44, CallInsert 29, CallInsert 58, CallRemove, CallRemove]"]
    by (simp add: list_all_iff)
  then show ?thesis using total_order_intComparator e by blast
qed

text \<open>
  C3 as stated fails. Ana and Juan have the same age, so Juan compares equal to his
  parent Ana; the strict loop of the wording (\<open>upHeap_spec\<close>) leaves him below her, but
  \<open>upHeap\<close> breaks only on a result \<open>> 0\<close> and swaps him above her.
\<close>

theorem upHeap_equal_parent_counterexample:
  "compare same_age_heap (elements same_age_heap ! 1) (elements same_age_heap ! 0) = 0 \<and>
   Elements (upHeap same_age_heap 1) = [Juan, Ana] \<and>
   Elements (upHeap_spec same_age_heap 1) = [Ana, Juan] \<and>
   Elements (Insert (Insert (NewGenericHeap peopleFromOldestToYoungest) Ana) Juan) = [Juan, Ana] \<and>
   Juan \<noteq> Ana"
  by code_simp

text \<open>
  C3, amended: during \<open>Insert\<close> the newly appended element (index \<open>Size h\<close> of the
  extended sequence) is swapped upward with its parent while it compares less than or
  equal to its parent (comparator result \<open>\<le> 0\<close>); the sift-up loop stops as soon as the
  element is at index 0 or compares strictly greater than its parent (result \<open>> 0\<close>). So
  the element comes to rest at an index \<open>k\<close> that is 0 or whose parent it strictly
  exceeds, and an element that compares equal to its parent is swapped above it.
\<close>

theorem upHeap_sift_rule:
  "Insert h x = upHeap (h\<lparr>elements := elements h @ [x]\<rparr>) (Size h) \<and>
   (i = 0 \<longrightarrow> upHeap h i = h) \<and>
   (0 < i \<and> i < Size h \<and>
    compare h (elements h ! i) (elements h ! ((i - 1) div 2)) > 0 \<longrightarrow> upHeap h i = h) \<and>
   (0 < i \<and> i < Size h \<and>
    compare h (elements h ! i) (elements h ! ((i - 1) div 2)) \<le> 0 \<longrightarrow>
      upHeap h i =
        upHeap (h\<lparr>elements := (elements h)[i := elements h ! ((i - 1) div 2),
                                             (i - 1) div 2 := elements h ! i]\<rparr>)
               ((i - 1) div 2)) \<and>
   (i < Size h \<longrightarrow>
      (\<exists>k\<le>i. elements (upHeap h i) ! k = elements h ! i \<and>
         (k = 0 \<or> compare h (elements h ! i) (elements (upHeap h i) ! ((k - 1) div 2)) > 0)))"
proof -
  have "Insert h x = upHeap (h\<lparr>elements := elements h @ [x]\<rparr>) (Size h)"
    by (simp add: Insert_def Let_def Size_def)
  moreover have "i = 0 \<longrightarrow> upHeap h i = h"
    by (subst upHeap.simps) simp
  moreover have "0 < i \<and> i < Size h \<and>
      compare h (elements h ! i) (elements h ! ((i - 1) div 2)) > 0 \<longrightarrow> upHeap h i = h"
    by (subst upHeap.simps) (simp add: Let_def)
  moreover have "0 < i \<and> i < Size h \<and>
      compare h (elements h ! i) (elements h ! ((i - 1) div 2)) \<le> 0 \<longrightarrow>
      upHeap h i =
        upHeap (h\<lparr>elements := (elements h)[i := elements h ! ((i - 1) div 2),
                                             (i - 1) div 2 := elements h ! i]\<rparr>)
               ((i - 1) div 2)"
    by (subst upHeap.simps) (simp add: Let_def)
  ultimately show ?thesis using upHeap_rest [of i h] by blast
qed

text \<open>The swapping step at the heap of Ana and Juan, who compare equal.\<close>

theorem upHeap_sift_rule_witness:
  "(0::nat) < 1 \<and> 1 < Size same_age_heap \<and>
   compare same_age_heap (elements same_age_heap ! 1) (elements same_age_heap ! ((1 - 1) div 2)) \<le> 0 \<and>
   upHeap same_age_heap 1 = same_age_heap\<lparr>elements := [Juan, Ana]\<rparr>"
proof -
  have c: "(0::nat) < 1 \<and> 1 < Size same_age_heap \<and>
     compare same_age_heap (elements same_age_heap ! 1) (elements same_age_heap ! ((1 - 1) div 2)) \<le> 0"
    by code_simp
  with upHeap_sift_rule [of same_age_heap undefined 1]
  have "upHeap same_age_heap 1 =
        upHeap (same_age_heap\<lparr>elements := (elements same_age_heap)
                  [1 := elements same_age_heap ! ((1 - 1) div 2),
                   (1 - 1) div 2 := elements same_age_heap ! 1]\<rparr>) ((1 - 1) div 2)"
    by blast
  also have "\<dots> = same_age_heap\<lparr>elements := [Juan, Ana]\<rparr>"
    by (subst upHeap.simps) (simp add: same_age_heap_def)
  finally show ?thesis using c by blast
qed

text \<open>
  C4: inserting 44, 29, 58, 2, 98, 11, 65, 3, 68, 99 one at a time into a fresh min-heap
  built with \<open>intComparator\<close> gives, after each insertion, exactly the array layouts of
  the test \<open>TestMinHeapCreateInsertAndExtract\<close>, as read through \<open>Elements\<close>.
\<close>

theorem min_heap_insert_layouts:
  "insert_layouts (NewMinHeap intComparator) [44, 29, 58, 2, 98, 11, 65, 3, 68, 99] =
     [[44], [29, 44], [29, 44, 58], [2, 29, 58, 44], [2, 29, 58, 44, 98],
      [2, 29, 11, 44, 98, 58], [2, 29, 11, 44, 98, 58, 65],
      [2, 3, 11, 29, 98, 58, 65, 44], [2, 3, 11, 29, 98, 58, 65, 44, 68],
      [2, 3, 11, 29, 98, 58, 65, 44, 68, 99]]"
  by code_simp

text \<open>
  C5: on a min-priority queue, after \<open>Enqueue("low", 10)\<close>, \<open>Enqueue("medium", 5)\<close>
  and \<open>Enqueue("high", 1)\<close>, three Dequeue calls return "high", "medium", "low" in
  that order without error, and the fourth Dequeue fails with the empty condition (at
  64 bits and at 32 bits alike).
\<close>

theorem min_queue_scenario:
  "(let q0 = (NewMinPriorityQueue :: (string, 64) PriorityQueue);
        q1 = Enqueue q0 ''low'' 10;
        q2 = Enqueue q1 ''medium'' 5;
        q3 = Enqueue q2 ''high'' 1;
        (r1, q4) = Dequeue q3;
        (r2, q5) = Dequeue q4;
        (r3, q6) = Dequeue q5;
        (r4, q7) = Dequeue q6
    in [r1, r2, r3, r4]) =
     [Inr ''high'', Inr ''medium'', Inr ''low'', Inl (errors_New ''empty heap'')] \<and>
   (let q0 = (NewMinPriorityQueue :: (string, 32) PriorityQueue);
        q1 = Enqueue q0 ''low'' 10;
        q2 = Enqueue q1 ''medium'' 5;
        q3 = Enqueue q2 ''high'' 1;
        (r1, q4) = Dequeue q3;
        (r2, q5) = Dequeue q4;
        (r3, q6) = Dequeue q5;
        (r4, q7) = Dequeue q6
    in [r1, r2, r3, r4]) =
     [Inr ''high'', Inr ''medium'', Inr ''low'', Inl (errors_New ''empty heap'')]"
  by code_simp

text \<open>
  C6: \<open>Remove\<close> and \<open>Peek\<close> on a heap of size 0 both return the "empty heap" error
  instead of an element and leave the element sequence and the size as they were. A
  freshly constructed heap has size 0, and so has a heap after as many removals as it
  had elements.
\<close>

theorem empty_heap_errors:
  "Size (NewGenericHeap cmp) = 0 \<and> Size (NewMinHeap cmp) = 0 \<and> Size (NewMaxHeap cmp) = 0 \<and>
   Size (((\<lambda>h. snd (Remove h)) ^^ Size h) h) = 0 \<and>
   (Size h = 0 \<longrightarrow>
      Remove h = (Inl (errors_New ''empty heap''), h) \<and>
      Peek h = (Inl (errors_New ''empty heap''), h) \<and>
      elements (snd (Remove h)) = elements h \<and> Size (snd (Remove h)) = Size h \<and>
      elements (snd (Peek h)) = elements h \<and> Size (snd (Peek h)) = Size h)"
proof -
  have "Size (NewGenericHeap cmp) = 0 \<and> Size (NewMinHeap cmp) = 0 \<and> Size (NewMaxHeap cmp) = 0"
    by (simp add: NewGenericHeap_def NewMinHeap_def NewMaxHeap_def Let_def Size_def)
  moreover have "Size (((\<lambda>h. snd (Remove h)) ^^ Size h) h) = 0"
    by (simp add: Size_drained)
  moreover have "Size h = 0 \<longrightarrow>
      Remove h = (Inl (errors_New ''empty heap''), h) \<and>
      Peek h = (Inl (errors_New ''empty heap''), h) \<and>
      elements (snd (Remove h)) = elements h \<and> Size (snd (Remove h)) = Size h \<and>
      elements (snd (Peek h)) = elements h \<and> Size (snd (Peek h)) = Size h"
    by (simp add: Remove_def Peek_def)
  ultimately show ?thesis by blast
qed

text \<open>A fresh min-heap, and a heap drained after one insertion.\<close>

theorem empty_heap_errors_witness:
  "Size (NewMinHeap intComparator) = 0 \<and>
   Remove (NewMinHeap intComparator) = (Inl (errors_New ''empty heap''), NewMinHeap intComparator) \<and>
   Peek (NewMinHeap intComparator) = (Inl (errors_New ''empty heap''), NewMinHeap intComparator) \<and>
   Size (snd (Remove (Insert (NewMinHeap intComparator) 44))) = 0 \<and>
   fst (Remove (snd (Remove (Insert (NewMinHeap intComparator) 44)))) = Inl (errors_New ''empty heap'') \<and>
   fst (Peek (snd (Remove (Insert (NewMinHeap intComparator) 44)))) = Inl (errors_New ''empty heap'')"
proof -
  have a: "Size (NewMinHeap intComparator) = 0" by code_simp
  have b: "Size (snd (Remove (Insert (NewMinHeap intComparator) 44))) = 0" by code_simp
  show ?thesis
    using empty_heap_errors [of intComparator "NewMinHeap intComparator"]
      empty_heap_errors [of intComparator "snd (Remove (Insert (NewMinHeap intComparator) 44))"]
      a b
    by simp
qed

text \<open>
  C7 as stated fails: the error \<open>Dequeue\<close> returns on an empty queue is the heap's own
  error value, whose message is "empty heap", not "queue empty".
\<close>

theorem Dequeue_queue_empty_counterexample:
  "pq_Size (NewMinPriorityQueue :: (string, 64) PriorityQueue) = 0 \<and>
   fst (Dequeue (NewMinPriorityQueue :: (string, 64) PriorityQueue)) = Inl (errors_New ''empty heap'') \<and>
   fst (Dequeue (NewMinPriorityQueue :: (string, 64) PriorityQueue)) \<noteq> Inl (errors_New ''queue empty'')"
  by (simp add: Dequeue_def Remove_def NewMinPriorityQueue_def NewGenericHeap_def Size_def pq_Size_def)

text \<open>
  C7, amended: \<open>Dequeue\<close> on an empty queue fails with the heap's own error
  "empty heap", propagated unchanged from \<open>Remove\<close> (whatever error \<open>Remove\<close> returns
  is the error \<open>Dequeue\<close> returns) and leaving the queue as it was; on a non-empty queue
  it returns only the value component of the pair that \<open>Remove\<close> took from the root,
  and the queue's heap is the one \<open>Remove\<close> left.
\<close>

theorem Dequeue_propagates:
  "(pq_Size pq = 0 \<longrightarrow>
      Remove (heap pq) = (Inl (errors_New ''empty heap''), heap pq) \<and>
      Dequeue pq = (Inl (errors_New ''empty heap''), pq)) \<and>
   (fst (Remove (heap pq)) = Inl e \<longrightarrow> fst (Dequeue pq) = Inl e) \<and>
   (0 < pq_Size pq \<longrightarrow>
      fst (Remove (heap pq)) = Inr (elements (heap pq) ! 0) \<and>
      fst (Dequeue pq) = Inr (val (elements (heap pq) ! 0))) \<and>
   heap (snd (Dequeue pq)) = snd (Remove (heap pq))"
  by (auto simp: Dequeue_def pq_Size_def Remove_def Let_def split: prod.splits sum.splits)

text \<open>An empty max-queue, and a max-queue holding one value.\<close>

theorem Dequeue_propagates_witness:
  "pq_Size (NewMaxPriorityQueue :: (string, 64) PriorityQueue) = 0 \<and>
   Dequeue (NewMaxPriorityQueue :: (string, 64) PriorityQueue) =
     (Inl (errors_New ''empty heap''), NewMaxPriorityQueue) \<and>
   0 < pq_Size (Enqueue (NewMaxPriorityQueue :: (string, 64) PriorityQueue) ''x'' 7) \<and>
   fst (Dequeue (Enqueue (NewMaxPriorityQueue :: (string, 64) PriorityQueue) ''x'' 7)) = Inr ''x''"
proof -
  have a: "pq_Size (NewMaxPriorityQueue :: (string, 64) PriorityQueue) = 0" by code_simp
  have b: "0 < pq_Size (Enqueue (NewMaxPriorityQueue :: (string, 64) PriorityQueue) ''x'' 7)" by code_simp
  have c: "val (elements (heap (Enqueue (NewMaxPriorityQueue :: (string, 64) PriorityQueue) ''x'' 7)) ! 0) = ''x''"
    by code_simp
  show ?thesis
    using Dequeue_propagates [of "NewMaxPriorityQueue :: (string, 64) PriorityQueue"]
      Dequeue_propagates [of "Enqueue (NewMaxPriorityQueue :: (string, 64) PriorityQueue) ''x'' 7"]
      a b c
    by simp
qed

text \<open>
  C8: for every priority queue state, \<open>Clear\<close> leaves a queue of size 0 whose heap has
  the very comparator of the heap it replaces: the result is the empty queue over that
  comparator. Hence a queue reached from \<open>NewMinPriorityQueue\<close> by any calls is, after
  \<open>Clear\<close>, equal to \<open>NewMinPriorityQueue\<close>, and every sequence of calls then returns
  what it returns on a fresh min-queue; likewise for \<open>NewMaxPriorityQueue\<close>.
\<close>

theorem Clear_is_fresh:
  "pq_Size (Clear pq) = 0 \<and>
   Comparator (heap (Clear pq)) = Comparator (heap pq) \<and>
   Clear pq = \<lparr>heap = NewGenericHeap (Comparator (heap pq))\<rparr> \<and>
   Clear (snd (pq_calls NewMinPriorityQueue cs)) = NewMinPriorityQueue \<and>
   Clear (snd (pq_calls NewMaxPriorityQueue cs)) = NewMaxPriorityQueue \<and>
   pq_calls (Clear (snd (pq_calls NewMinPriorityQueue cs))) cs' = pq_calls NewMinPriorityQueue cs' \<and>
   pq_calls (Clear (snd (pq_calls NewMaxPriorityQueue cs))) cs' = pq_calls NewMaxPriorityQueue cs'"
proof -
  have "pq_Size (Clear pq) = 0"
    by (simp add: Clear_eq pq_Size_def Size_def NewGenericHeap_def)
  moreover have "Comparator (heap (Clear pq)) = Comparator (heap pq)"
    by (simp add: Clear_eq Comparator_def NewGenericHeap_def)
  moreover have "Clear pq = \<lparr>heap = NewGenericHeap (Comparator (heap pq))\<rparr>"
    by (simp add: Clear_eq Comparator_def)
  ultimately show ?thesis
    by (simp only: Clear_after_calls_min Clear_after_calls_max simp_thms)
qed

text \<open>
  C9: in \<open>downHeap\<close> at index \<open>i\<close>, when both children exist, both compare smaller
  than the element at \<open>i\<close> and the right child compares equal to the left one, the
  swap is with the left child \<open>2i+1\<close>: the loop continues from there, and the former
  left child ends at index \<open>i\<close>.
\<close>

theorem downHeap_tie_left:
  assumes "2 * i + 2 < Size h"
    and "compare h (elements h ! (2 * i + 1)) (elements h ! i) < 0"
    and "compare h (elements h ! (2 * i + 2)) (elements h ! i) < 0"
    and "compare h (elements h ! (2 * i + 2)) (elements h ! (2 * i + 1)) = 0"
  shows "smallest_child h i = 2 * i + 1 \<and>
         downHeap h i =
           downHeap (h\<lparr>elements := (elements h)[i := elements h ! (2 * i + 1),
                                                2 * i + 1 := elements h ! i]\<rparr>)
                    (2 * i + 1) \<and>
         elements (downHeap h i) ! i = elements h ! (2 * i + 1)"
proof -
  have s: "smallest_child h i = 2 * i + 1"
    using assms by (simp add: smallest_child_def Let_def)
  have d: "downHeap h i =
           downHeap (h\<lparr>elements := (elements h)[i := elements h ! (2 * i + 1),
                                                2 * i + 1 := elements h ! i]\<rparr>)
                    (2 * i + 1)"
    by (subst downHeap_unfold) (simp add: s Let_def)
  have "elements (downHeap h i) ! i = elements h ! (2 * i + 1)"
    using assms(1) unfolding d by (subst downHeap_below) (simp_all add: Size_def)
  then show ?thesis using s d by blast
qed

text \<open>Maria (age 2) above Ana and Juan (both 29), oldest first: Ana moves up.\<close>

theorem downHeap_tie_left_witness:
  "2 * 0 + 2 < Size young_root_heap \<and>
   compare young_root_heap (elements young_root_heap ! (2 * 0 + 1)) (elements young_root_heap ! 0) < 0 \<and>
   compare young_root_heap (elements young_root_heap ! (2 * 0 + 2)) (elements young_root_heap ! 0) < 0 \<and>
   compare young_root_heap (elements young_root_heap ! (2 * 0 + 2))
      (elements young_root_heap ! (2 * 0 + 1)) = 0 \<and>
   smallest_child young_root_heap 0 = 2 * 0 + 1 \<and>
   elements (downHeap young_root_heap 0) ! 0 = Ana \<and>
   Elements (downHeap young_root_heap 0) = [Ana, Maria, Juan]"
proof -
  have a: "2 * 0 + 2 < Size young_root_heap"
    and b: "compare young_root_heap (elements young_root_heap ! (2 * 0 + 1))
              (elements young_root_heap ! 0) < 0"
    and c: "compare young_root_heap (elements young_root_heap ! (2 * 0 + 2))
              (elements young_root_heap ! 0) < 0"
    and d: "compare young_root_heap (elements young_root_heap ! (2 * 0 + 2))
              (elements young_root_heap ! (2 * 0 + 1)) = 0"
    by code_simp+
  have e: "elements young_root_heap ! (2 * 0 + 1) = Ana" by code_simp
  have f: "Elements (downHeap young_root_heap 0) = [Ana, Maria, Juan]" by code_simp
  show ?thesis
    using downHeap_tie_left [OF a b c d] a b c d f unfolding e by blast
qed

text \<open>
  C10: the min comparator is the wrapped machine subtraction \<open>a.priority - b.priority\<close>
  and the max comparator \<open>b.priority - a.priority\<close>. At every width \<open>w \<ge> 2\<close> there are
  priorities \<open>p < q\<close> (the least integer and 1) for which the min comparator is positive
  on \<open>(p, q)\<close> and the max comparator is positive on \<open>(q, p)\<close>. The sign of either
  comparator agrees with the order of the priorities exactly when the difference it
  computes is representable, that is, lies between \<open>-2^(w-1)\<close> and \<open>2^(w-1) - 1\<close>.
\<close>

theorem comparator_overflow:
  fixes a b :: "('a, 'w::len) prioritized" and x y :: 'a
  shows
  "compare (heap NewMinPriorityQueue) a b = sint (priority a - priority b) \<and>
   compare (heap NewMaxPriorityQueue) a b = sint (priority b - priority a) \<and>
   (2 \<le> LENGTH('w) \<longrightarrow>
      (\<exists>p q :: 'w word. p <s q \<and>
         0 < compare (heap NewMinPriorityQueue) \<lparr>val = x, priority = p\<rparr> \<lparr>val = y, priority = q\<rparr> \<and>
         0 < compare (heap NewMaxPriorityQueue) \<lparr>val = y, priority = q\<rparr> \<lparr>val = x, priority = p\<rparr>)) \<and>
   (((compare (heap NewMinPriorityQueue) a b < 0) = (priority a <s priority b) \<and>
     (0 < compare (heap NewMinPriorityQueue) a b) = (priority b <s priority a)) =
    (- (2 ^ (LENGTH('w) - 1)) \<le> sint (priority a) - sint (priority b) \<and>
     sint (priority a) - sint (priority b) < 2 ^ (LENGTH('w) - 1))) \<and>
   (((compare (heap NewMaxPriorityQueue) a b < 0) = (priority b <s priority a) \<and>
     (0 < compare (heap NewMaxPriorityQueue) a b) = (priority a <s priority b)) =
    (- (2 ^ (LENGTH('w) - 1)) \<le> sint (priority b) - sint (priority a) \<and>
     sint (priority b) - sint (priority a) < 2 ^ (LENGTH('w) - 1)))"
proof -
  have ex: "2 \<le> LENGTH('w) \<longrightarrow> (\<exists>p q :: 'w word. p <s q \<and> 0 < sint (p - q))"
    using least_word_overflow [where 'w = 'w] by blast
  show ?thesis
    unfolding NewMin_compare NewMax_compare
    using ex sint_sub_sign_iff [of "priority a" "priority b"]
      sint_sub_sign_iff [of "priority b" "priority a"]
    by simp
qed

text \<open>
  At 64 bits: the least integer and 1 have the representable order \<open>p < q\<close> but the
  difference \<open>-2^63 - 1\<close> is not representable, and both comparators give \<open>2^63 - 1\<close>.
\<close>

theorem comparator_overflow_witness:
  "2 \<le> LENGTH(64) \<and>
   (- 9223372036854775808 :: 64 word) <s 1 \<and>
   \<not> (- (2 ^ (LENGTH(64) - 1)) \<le> sint (- 9223372036854775808 :: 64 word) - sint (1 :: 64 word)) \<and>
   compare (heap (NewMinPriorityQueue :: (string, 64) PriorityQueue))
     \<lparr>val = ''p'', priority = - 9223372036854775808\<rparr> \<lparr>val = ''q'', priority = 1\<rparr>
     = 9223372036854775807 \<and>
   compare (heap (NewMaxPriorityQueue :: (string, 64) PriorityQueue))
     \<lparr>val = ''q'', priority = 1\<rparr> \<lparr>val = ''p'', priority = - 9223372036854775808\<rparr>
     = 9223372036854775807"
  using comparator_overflow
    [of "\<lparr>val = ''p'', priority = - 9223372036854775808 :: 64 word\<rparr>" "\<lparr>val = ''q'', priority = 1\<rparr>"]
    comparator_overflow
    [of "\<lparr>val = ''q'', priority = 1 :: 64 word\<rparr>" "\<lparr>val = ''p'', priority = - 9223372036854775808\<rparr>"]
  by (simp add: word_sless_alt)

end
